theory Spec2Isabelle
  imports Main "HOL-Library.Sublist" "HOL-Library.Multiset"
begin

section \<open>The VCD splitter of \<^verbatim>\<open>scripts/ibex/split_vcd.py\<close>\<close>

text \<open>
  The script reads a VCD file as a list of lines, finds the end of the header (the
  line closing the \<^verbatim>\<open>$dumpvars\<close> section), routes every later line to one of two
  lists by comparing the running simulation time with the split time, and writes the
  header followed by each list to the two output files.

  A Python \<^verbatim>\<open>str\<close> is modelled as a \<^typ>\<open>string\<close> whose characters are the code points
  below 256; a Python \<^verbatim>\<open>int\<close> is an \<^typ>\<open>int\<close>. The input file is the text it
  holds, and each output file the text written to it.
\<close>

subsection \<open>The string operations the script calls\<close>

text \<open>\<^verbatim>\<open>line.startswith('#')\<close>.\<close>

definition startswith_hash :: "string \<Rightarrow> bool" where
  "startswith_hash line = (case line of [] \<Rightarrow> False | c # _ \<Rightarrow> c = CHR ''#'')"

text \<open>\<^verbatim>\<open>pat in line\<close>: \<open>pat\<close> occurs in \<open>line\<close> as a contiguous substring.\<close>

fun py_in :: "string \<Rightarrow> string \<Rightarrow> bool" where
  "py_in pat [] = (pat = [])"
| "py_in pat (c # cs) = (take (length pat) (c # cs) = pat \<or> py_in pat cs)"

text \<open>
  \<^verbatim>\<open>str.strip()\<close> removes the leading and trailing characters for which
  \<^verbatim>\<open>str.isspace\<close> holds; below 256 these are the code points 9 to 13, 28 to 32,
  133 and 160.
\<close>

definition py_isspace :: "char \<Rightarrow> bool" where
  "py_isspace c =
     (let n = (of_char c :: nat)
      in (9 \<le> n \<and> n \<le> 13) \<or> (28 \<le> n \<and> n \<le> 32) \<or> n = 133 \<or> n = 160)"

definition py_strip :: "string \<Rightarrow> string" where
  "py_strip s = rev (dropWhile py_isspace (rev (dropWhile py_isspace s)))"

text \<open>
  \<^verbatim>\<open>int(s)\<close> on a string: an optional sign, then decimal digits in which single
  underscores may separate digits; anything else, the empty string included, raises
  \<^verbatim>\<open>ValueError\<close>, and so does a literal of more than 4300 digits (the interpreter's
  default limit). Below 256 the only decimal digits are \<^verbatim>\<open>0\<close> to \<^verbatim>\<open>9\<close>. Around the
  literal \<^verbatim>\<open>int\<close> accepts the code points 9 to 13, 32, 133 and 160, not 28 to 31; the
  script has stripped the string already.
\<close>

datatype py_error = ValueError

definition py_isdigit :: "char \<Rightarrow> bool" where
  "py_isdigit c = (let n = (of_char c :: nat) in 48 \<le> n \<and> n \<le> 57)"

definition digit_value :: "char \<Rightarrow> nat" where
  "digit_value c = (of_char c :: nat) - 48"

text \<open>
  The digits of a literal, in order; the flag says whether the previous character
  was a digit, which is what an underscore and the end of the literal require.
\<close>

fun scan_digits :: "bool \<Rightarrow> string \<Rightarrow> nat list option" where
  "scan_digits after_digit [] = (if after_digit then Some [] else None)"
| "scan_digits after_digit (c # cs) =
     (if py_isdigit c then map_option ((#) (digit_value c)) (scan_digits True cs)
      else if c = CHR ''_'' \<and> after_digit then scan_digits False cs
      else None)"

definition int_isspace :: "char \<Rightarrow> bool" where
  "int_isspace c =
     (let n = (of_char c :: nat)
      in (9 \<le> n \<and> n \<le> 13) \<or> n = 32 \<or> n = 133 \<or> n = 160)"

definition int_max_str_digits :: nat where
  "int_max_str_digits = 4300"

definition decimal_value :: "nat list \<Rightarrow> nat" where
  "decimal_value ds = foldl (\<lambda>a d. 10 * a + d) 0 ds"

definition py_int :: "string \<Rightarrow> py_error + int" where
  "py_int s =
     (let t = rev (dropWhile int_isspace (rev (dropWhile int_isspace s)));
          negative = (case t of [] \<Rightarrow> False | c # _ \<Rightarrow> c = CHR ''-'');
          signed = (case t of [] \<Rightarrow> False | c # _ \<Rightarrow> c = CHR ''-'' \<or> c = CHR ''+'');
          literal = (if signed then drop 1 t else t)
      in case scan_digits False literal of
           None \<Rightarrow> Inl ValueError
         | Some ds \<Rightarrow>
             if int_max_str_digits < length ds then Inl ValueError
             else Inr (if negative then - int (decimal_value ds) else int (decimal_value ds)))"

subsection \<open>Reading the input\<close>

text \<open>
  \<^verbatim>\<open>
  with open(input_file, 'r') as f:
      lines = f.readlines()
  \<close>
  The file is opened in text mode with the default \<^verbatim>\<open>newline=None\<close>: on reading, each
  \<^verbatim>\<open>\r\n\<close> and each \<^verbatim>\<open>\r\<close> on its own becomes \<^verbatim>\<open>\n\<close>. \<^verbatim>\<open>readlines\<close> then cuts the text
  after each \<^verbatim>\<open>\n\<close>; the last line has none when the text does not end with one.
\<close>

fun universal_newlines :: "string \<Rightarrow> string" where
  "universal_newlines [] = []"
| "universal_newlines (c # cs) =
     (if c = CHR 0x0D
      then (case cs of
              [] \<Rightarrow> [CHR 0x0A]
            | d # ds \<Rightarrow>
                if d = CHR 0x0A then CHR 0x0A # universal_newlines ds
                else CHR 0x0A # universal_newlines cs)
      else c # universal_newlines cs)"

fun keep_ends :: "string \<Rightarrow> string list" where
  "keep_ends [] = []"
| "keep_ends (c # cs) =
     (if c = CHR 0x0A then [c] # keep_ends cs
      else (case keep_ends cs of [] \<Rightarrow> [[c]] | l # ls \<Rightarrow> (c # l) # ls))"

definition readlines :: "string \<Rightarrow> string list" where
  "readlines input_text = keep_ends (universal_newlines input_text)"

subsection \<open>Finding the end of the header\<close>

text \<open>
  \<^verbatim>\<open>
  header_end = 0
  in_dumpvars = False
  for i, line in enumerate(lines):
      if '$dumpvars' in line:
          in_dumpvars = True
      if in_dumpvars and '$end' in line:
          header_end = i + 1
          break
  \<close>
  The loop is a recursion over the lines still to be read, with the index \<open>i\<close> and
  the flag \<open>in_dumpvars\<close> as arguments; running out of lines leaves \<open>header_end\<close> at 0.
\<close>

definition has_dumpvars :: "string \<Rightarrow> bool" where
  "has_dumpvars line = py_in ''$dumpvars'' line"

definition has_end :: "string \<Rightarrow> bool" where
  "has_end line = py_in ''$end'' line"

fun header_scan :: "nat \<Rightarrow> bool \<Rightarrow> string list \<Rightarrow> nat" where
  "header_scan i in_dumpvars [] = 0"
| "header_scan i in_dumpvars (line # rest) =
     (let in_dumpvars' = (if has_dumpvars line then True else in_dumpvars)
      in if in_dumpvars' \<and> has_end line then i + 1
         else header_scan (i + 1) in_dumpvars' rest)"

definition find_header_end :: "string list \<Rightarrow> nat" where
  "find_header_end lines = header_scan 0 False lines"

subsection \<open>Routing the body lines\<close>

text \<open>
  \<^verbatim>\<open>
  data1 = []
  data2 = []
  current_time = 0
  split_occurred = False
  for line in data:
      if line.startswith('#'):
          try:
              current_time = int(line[1:].strip())
          except:
              pass
      if current_time <= split_time_ps:
          data1.append(line)
      else:
          if not split_occurred:
              split_occurred = True
          data2.append(line)
  \<close>
  The four local variables are the fields of the loop state.
\<close>

record router =
  data1 :: "string list"
  data2 :: "string list"
  current_time :: int
  split_occurred :: bool

definition init_router :: router where
  "init_router = \<lparr>data1 = [], data2 = [], current_time = 0, split_occurred = False\<rparr>"

text \<open>The \<^verbatim>\<open>try\<close> block: a \<^verbatim>\<open>ValueError\<close> is caught and leaves the time as it was.\<close>

definition update_time :: "string \<Rightarrow> int \<Rightarrow> int" where
  "update_time line ct =
     (if startswith_hash line
      then (case py_int (py_strip (drop 1 line)) of Inr t \<Rightarrow> t | Inl e \<Rightarrow> ct)
      else ct)"

definition route_line :: "int \<Rightarrow> string \<Rightarrow> router \<Rightarrow> router" where
  "route_line split_time_ps line st =
     (let st1 = st\<lparr>current_time := update_time line (current_time st)\<rparr>
      in if current_time st1 \<le> split_time_ps
         then st1\<lparr>data1 := data1 st1 @ [line]\<rparr>
         else (let st2 = (if \<not> split_occurred st1 then st1\<lparr>split_occurred := True\<rparr> else st1)
               in st2\<lparr>data2 := data2 st2 @ [line]\<rparr>))"

fun route_loop :: "int \<Rightarrow> router \<Rightarrow> string list \<Rightarrow> router" where
  "route_loop split_time_ps st [] = st"
| "route_loop split_time_ps st (line # rest) =
     route_loop split_time_ps (route_line split_time_ps line st) rest"

text \<open>Lines 34 to 54 of the script: the two partitions of a body.\<close>

definition split_data :: "int \<Rightarrow> string list \<Rightarrow> string list \<times> string list" where
  "split_data split_time_ps body =
     (let st = route_loop split_time_ps init_router body in (data1 st, data2 st))"

subsection \<open>Writing the two outputs\<close>

text \<open>
  A file opened with mode \<^verbatim>\<open>'w'\<close> starts empty, and \<^verbatim>\<open>f.writelines(ls)\<close> appends the
  strings of \<open>ls\<close> one after the other, adding nothing between them. The text is
  written as it is where \<^verbatim>\<open>os.linesep\<close> is \<^verbatim>\<open>\n\<close>, as on the systems the script's first
  line addresses.
\<close>

definition writelines :: "string \<Rightarrow> string list \<Rightarrow> string" where
  "writelines f ls = f @ concat ls"

definition header_of :: "string list \<Rightarrow> string list" where
  "header_of lines = take (find_header_end lines) lines"

definition body_of :: "string list \<Rightarrow> string list" where
  "body_of lines = drop (find_header_end lines) lines"

text \<open>
  The function after the read, from the lines to the contents of the two files
  written, and the whole function, from the text of the input file.
\<close>

definition split_vcd :: "string list \<Rightarrow> int \<Rightarrow> string \<times> string" where
  "split_vcd lines split_time_ps =
     (let header_end = find_header_end lines;
          header = take header_end lines;
          body = drop header_end lines;
          st = route_loop split_time_ps init_router body;
          output1 = writelines (writelines [] header) (data1 st);
          output2 = writelines (writelines [] header) (data2 st)
      in (output1, output2))"

definition split_vcd_file :: "string \<Rightarrow> int \<Rightarrow> string \<times> string" where
  "split_vcd_file input_text split_time_ps =
     (let lines = readlines input_text in split_vcd lines split_time_ps)"

subsection \<open>Notions the properties are stated with\<close>

text \<open>
  A timestamp line is a line that changes the time: it starts with \<^verbatim>\<open>#\<close> and the rest,
  stripped, is accepted by \<^verbatim>\<open>int\<close>. \<open>timestamp_of\<close> gives its value.
\<close>

definition timestamp_of :: "string \<Rightarrow> int option" where
  "timestamp_of line =
     (if startswith_hash line
      then (case py_int (py_strip (drop 1 line)) of Inr t \<Rightarrow> Some t | Inl e \<Rightarrow> None)
      else None)"

text \<open>The values of the timestamp lines of a body, in order.\<close>

fun timestamps :: "string list \<Rightarrow> int list" where
  "timestamps [] = []"
| "timestamps (line # rest) =
     (case timestamp_of line of Some t \<Rightarrow> t # timestamps rest | None \<Rightarrow> timestamps rest)"

text \<open>
  What the loop computes from a given time on, as three list recursions: the time
  after a run of lines, and the lines the run adds to \<open>data1\<close> and to \<open>data2\<close>. They are
  proved equal to the fields of \<open>route_loop\<close> below and serve the inductions.
\<close>

fun time_after :: "int \<Rightarrow> string list \<Rightarrow> int" where
  "time_after ct [] = ct"
| "time_after ct (line # rest) = time_after (update_time line ct) rest"

fun before_from :: "int \<Rightarrow> int \<Rightarrow> string list \<Rightarrow> string list" where
  "before_from T ct [] = []"
| "before_from T ct (line # rest) =
     (if update_time line ct \<le> T then line # before_from T (update_time line ct) rest
      else before_from T (update_time line ct) rest)"

fun after_from :: "int \<Rightarrow> int \<Rightarrow> string list \<Rightarrow> string list" where
  "after_from T ct [] = []"
| "after_from T ct (line # rest) =
     (if update_time line ct \<le> T then after_from T (update_time line ct) rest
      else line # after_from T (update_time line ct) rest)"

text \<open>The body of the specification's boundary examples: \<^verbatim>\<open>#100\n1!\n#200\n1!\n\<close>.\<close>

definition boundary_body :: "string list" where
  "boundary_body =
     [''#100'' @ [CHR 0x0A], ''1!'' @ [CHR 0x0A], ''#200'' @ [CHR 0x0A], ''1!'' @ [CHR 0x0A]]"

text \<open>
  The boundary as the specification words it: the first line with an end marker that
  comes after a line with a dumpvars marker, plus one. It is compared with
  \<open>find_header_end\<close> below.
\<close>

definition end_after_dumpvars :: "string list \<Rightarrow> nat \<Rightarrow> bool" where
  "end_after_dumpvars lines e \<longleftrightarrow>
     e < length lines \<and> has_end (lines ! e) \<and> list_ex has_dumpvars (take e lines)"

definition claimed_header_end :: "string list \<Rightarrow> nat option" where
  "claimed_header_end lines =
     (case filter (end_after_dumpvars lines) [0..<length lines] of
        [] \<Rightarrow> None
      | e # _ \<Rightarrow> Some (e + 1))"

text \<open>Example files: the lines as \<^verbatim>\<open>readlines\<close> returns them, each with its newline.\<close>

definition multiline_dumpvars_file :: "string list" where
  "multiline_dumpvars_file =
     [''$enddefinitions $end'' @ [CHR 0x0A],
      ''$dumpvars'' @ [CHR 0x0A],
      ''0!'' @ [CHR 0x0A],
      ''$end'' @ [CHR 0x0A],
      ''#5'' @ [CHR 0x0A],
      ''1!'' @ [CHR 0x0A],
      ''#10'' @ [CHR 0x0A],
      ''0!'' @ [CHR 0x0A]]"

definition oneline_dumpvars_file :: "string list" where
  "oneline_dumpvars_file =
     [''$var wire 1 ! clk $end'' @ [CHR 0x0A],
      ''$enddefinitions $end'' @ [CHR 0x0A],
      ''$dumpvars 0! $end'' @ [CHR 0x0A],
      ''#5'' @ [CHR 0x0A],
      ''$dumpoff x! $end'' @ [CHR 0x0A]]"

definition unterminated_file :: "string list" where
  "unterminated_file =
     [''$dumpvars'' @ [CHR 0x0A], ''0!'' @ [CHR 0x0A], ''#5'' @ [CHR 0x0A], ''1!'' @ [CHR 0x0A]]"

definition malformed_line :: string where
  "malformed_line = ''#abc'' @ [CHR 0x0A]"

text \<open>A body whose time goes backwards, which the script reads all the same.\<close>

definition backwards_body :: "string list" where
  "backwards_body =
     [''#200'' @ [CHR 0x0A], ''1!'' @ [CHR 0x0A], ''#100'' @ [CHR 0x0A], ''0!'' @ [CHR 0x0A]]"

text \<open>The text of a file with \<^verbatim>\<open>\r\n\<close> line ends, and of the same file with \<^verbatim>\<open>\n\<close>.\<close>

definition crlf_file :: string where
  "crlf_file =
     ''$dumpvars'' @ [CHR 0x0D, CHR 0x0A] @ ''0!'' @ [CHR 0x0D, CHR 0x0A] @
     ''$end'' @ [CHR 0x0D, CHR 0x0A] @ ''#5'' @ [CHR 0x0D, CHR 0x0A] @
     ''1!'' @ [CHR 0x0D, CHR 0x0A]"

definition lf_file :: string where
  "lf_file =
     ''$dumpvars'' @ [CHR 0x0A] @ ''0!'' @ [CHR 0x0A] @ ''$end'' @ [CHR 0x0A] @
     ''#5'' @ [CHR 0x0A] @ ''1!'' @ [CHR 0x0A]"

section \<open>The loop as list recursions\<close>

lemma update_time_timestamp:
  "update_time line ct = (case timestamp_of line of Some t \<Rightarrow> t | None \<Rightarrow> ct)"
  by (simp add: update_time_def timestamp_of_def split: sum.splits)

lemma timestamps_append: "timestamps (xs @ ys) = timestamps xs @ timestamps ys"
  by (induction xs) (simp_all split: option.splits)

lemma data1_route_loop:
  "data1 (route_loop T st body) = data1 st @ before_from T (current_time st) body"
  by (induction body arbitrary: st) (simp_all add: route_line_def Let_def)

lemma data2_route_loop:
  "data2 (route_loop T st body) = data2 st @ after_from T (current_time st) body"
  by (induction body arbitrary: st) (simp_all add: route_line_def Let_def)

lemma current_time_route_loop:
  "current_time (route_loop T st body) = time_after (current_time st) body"
  by (induction body arbitrary: st) (simp_all add: route_line_def Let_def)

lemma split_occurred_route_loop:
  "split_occurred (route_loop T st body) =
     (split_occurred st \<or> after_from T (current_time st) body \<noteq> [])"
  by (induction body arbitrary: st) (auto simp add: route_line_def Let_def)

lemma split_data_eq: "split_data T body = (before_from T 0 body, after_from T 0 body)"
  by (simp add: split_data_def Let_def data1_route_loop data2_route_loop init_router_def)

lemma time_after_append: "time_after ct (xs @ ys) = time_after (time_after ct xs) ys"
  by (induction xs arbitrary: ct) simp_all

lemma before_from_append:
  "before_from T ct (xs @ ys) = before_from T ct xs @ before_from T (time_after ct xs) ys"
  by (induction xs arbitrary: ct) simp_all

lemma after_from_append:
  "after_from T ct (xs @ ys) = after_from T ct xs @ after_from T (time_after ct xs) ys"
  by (induction xs arbitrary: ct) simp_all

lemma shuffles_from: "body \<in> shuffles (before_from T ct body) (after_from T ct body)"
  by (induction body arbitrary: ct)
     (simp_all add: Cons_in_shuffles_leftI Cons_in_shuffles_rightI)

text \<open>
  Once the time is above the split time and every timestamp still to come is above
  it too, all remaining lines go to \<open>data2\<close>.
\<close>

lemma all_after:
  "T < ct \<Longrightarrow> \<forall>t\<in>set (timestamps body). T < t \<Longrightarrow>
     before_from T ct body = [] \<and> after_from T ct body = body"
proof (induction body arbitrary: ct)
  case Nil
  then show ?case by simp
next
  case (Cons line rest)
  have "T < update_time line ct"
    using Cons.prems by (auto simp: update_time_timestamp split: option.splits)
  moreover have "\<forall>t\<in>set (timestamps rest). T < t"
    using Cons.prems(2) by (auto split: option.splits)
  ultimately show ?case using Cons.IH by simp
qed

text \<open>
  With non-decreasing timestamps and a start at or below the split time, the loop
  cuts the body in two at one place.
\<close>

lemma sorted_split_from:
  "sorted (timestamps body) \<Longrightarrow> ct \<le> T \<Longrightarrow>
     before_from T ct body @ after_from T ct body = body"
proof (induction body arbitrary: ct)
  case Nil
  then show ?case by simp
next
  case (Cons line rest)
  have srest: "sorted (timestamps rest)"
    using Cons.prems(1) by (auto split: option.splits)
  show ?case
  proof (cases "update_time line ct \<le> T")
    case True
    then show ?thesis using Cons.IH [OF srest True] by simp
  next
    case False
    then obtain t where t: "timestamp_of line = Some t" "update_time line ct = t"
      using Cons.prems(2) by (auto simp: update_time_timestamp split: option.splits)
    have "\<forall>u\<in>set (timestamps rest). T < u"
      using Cons.prems(1) t False by auto
    with all_after [of T "update_time line ct" rest] False show ?thesis by simp
  qed
qed

lemma subseq_before_from: "subseq (before_from T ct xs) xs"
  by (induction xs arbitrary: ct) (simp_all add: list_emb_Cons)

lemma subseq_after_from: "subseq (after_from T ct xs) xs"
  by (induction xs arbitrary: ct) (simp_all add: list_emb_Cons)

lemma mset_from: "mset (before_from T ct xs) + mset (after_from T ct xs) = mset xs"
  by (induction xs arbitrary: ct) simp_all

lemma timestamps_boundary_body: "timestamps boundary_body = [100, 200]"
  by code_simp

lemma split_data_append:
  "split_data T (xs @ ys) =
     (fst (split_data T xs) @ before_from T (time_after 0 xs) ys,
      snd (split_data T xs) @ after_from T (time_after 0 xs) ys)"
  by (simp add: split_data_eq before_from_append after_from_append)

lemma no_timestamp_time: "\<forall>l\<in>set xs. timestamp_of l = None \<Longrightarrow> time_after ct xs = ct"
  by (induction xs) (simp_all add: update_time_timestamp)

lemma no_timestamp_before:
  "\<forall>l\<in>set xs. timestamp_of l = None \<Longrightarrow>
     before_from T ct xs = (if ct \<le> T then xs else [])"
  by (induction xs) (simp_all add: update_time_timestamp)

lemma no_timestamp_after:
  "\<forall>l\<in>set xs. timestamp_of l = None \<Longrightarrow>
     after_from T ct xs = (if ct \<le> T then [] else xs)"
  by (induction xs) (simp_all add: update_time_timestamp)

lemma split_data_boundary_100:
  "split_data 100 boundary_body =
     ([''#100'' @ [CHR 0x0A], ''1!'' @ [CHR 0x0A]], [''#200'' @ [CHR 0x0A], ''1!'' @ [CHR 0x0A]])"
  by code_simp

lemma split_data_boundary_99: "split_data 99 boundary_body = ([], boundary_body)"
  by code_simp

lemma restart_data1:
  "data1 (route_loop T (init_router\<lparr>current_time := ct\<rparr>) body) = before_from T ct body"
  by (simp add: data1_route_loop init_router_def)

lemma restart_data2:
  "data2 (route_loop T (init_router\<lparr>current_time := ct\<rparr>) body) = after_from T ct body"
  by (simp add: data2_route_loop init_router_def)

lemma route_loop_snoc: "route_loop T st (xs @ [l]) = route_line T l (route_loop T st xs)"
  by (induction xs arbitrary: st) simp_all

lemma resplit_from:
  "sorted (timestamps body) \<Longrightarrow> ct \<le> T1 \<Longrightarrow> T1 \<le> T2 \<Longrightarrow>
     before_from T2 ct body = before_from T1 ct body @ before_from T2 ct' (after_from T1 ct body) \<and>
     after_from T2 ct body = after_from T2 ct' (after_from T1 ct body)"
proof (induction body arbitrary: ct)
  case Nil
  then show ?case by simp
next
  case (Cons line rest)
  have srest: "sorted (timestamps rest)"
    using Cons.prems(1) by (auto split: option.splits)
  show ?case
  proof (cases "update_time line ct \<le> T1")
    case True
    then show ?thesis
      using Cons.IH [OF srest True Cons.prems(3)] Cons.prems(3) by simp
  next
    case False
    then obtain t where t: "timestamp_of line = Some t" "update_time line ct = t"
      using Cons.prems(2) by (auto simp: update_time_timestamp split: option.splits)
    have "\<forall>u\<in>set (timestamps rest). T1 < u"
      using Cons.prems(1) t False by auto
    with all_after [of T1 "update_time line ct" rest] False
    have "before_from T1 ct (line # rest) = []" "after_from T1 ct (line # rest) = line # rest"
      by simp_all
    moreover have "update_time line ct' = update_time line ct"
      using t by (simp add: update_time_timestamp)
    ultimately show ?thesis by simp
  qed
qed

section \<open>The header scan\<close>

lemma header_scan_open:
  "e < length ls \<Longrightarrow> has_end (ls ! e) \<Longrightarrow> \<forall>j<e. \<not> has_end (ls ! j) \<Longrightarrow>
     header_scan i True ls = i + e + 1"
proof (induction ls arbitrary: i e)
  case Nil
  then show ?case by simp
next
  case (Cons line rest)
  show ?case
  proof (cases e)
    case 0
    then show ?thesis using Cons.prems by simp
  next
    case (Suc e')
    have "\<not> has_end line" using Cons.prems(3) Suc by auto
    moreover have "\<forall>j<e'. \<not> has_end (rest ! j)" using Cons.prems(3) Suc by auto
    ultimately show ?thesis
      using Cons.IH [of e' "i + 1"] Cons.prems(1,2) Suc by simp
  qed
qed

lemma header_scan_closed:
  "d \<le> e \<Longrightarrow> e < length ls \<Longrightarrow> has_dumpvars (ls ! d) \<Longrightarrow> \<forall>j<d. \<not> has_dumpvars (ls ! j) \<Longrightarrow>
   has_end (ls ! e) \<Longrightarrow> \<forall>j. d \<le> j \<and> j < e \<longrightarrow> \<not> has_end (ls ! j) \<Longrightarrow>
     header_scan i False ls = i + e + 1"
proof (induction ls arbitrary: i d e)
  case Nil
  then show ?case by simp
next
  case (Cons line rest)
  show ?case
  proof (cases d)
    case 0
    then have dv: "has_dumpvars line" using Cons.prems(3) by simp
    show ?thesis
    proof (cases e)
      case 0
      then show ?thesis using dv Cons.prems(5) by simp
    next
      case (Suc e')
      have "\<not> has_end line" using Cons.prems(6) \<open>d = 0\<close> Suc by auto
      moreover have "\<forall>j<e'. \<not> has_end (rest ! j)" using Cons.prems(6) \<open>d = 0\<close> Suc by auto
      ultimately show ?thesis
        using header_scan_open [of e' rest "i + 1"] Cons.prems(2,5) Suc dv by simp
    qed
  next
    case (Suc d')
    then obtain e' where e': "e = Suc e'" using Cons.prems(1) by (cases e) auto
    have "\<not> has_dumpvars line" using Cons.prems(4) Suc by auto
    moreover have "\<forall>j<d'. \<not> has_dumpvars (rest ! j)" using Cons.prems(4) Suc by auto
    moreover have "\<forall>j. d' \<le> j \<and> j < e' \<longrightarrow> \<not> has_end (rest ! j)"
      using Cons.prems(6) Suc e' by auto
    ultimately show ?thesis
      using Cons.IH [of d' e' "i + 1"] Cons.prems(1,2,3,5) Suc e' by simp
  qed
qed

lemma header_scan_no_end: "\<forall>l\<in>set ls. \<not> has_end l \<Longrightarrow> header_scan i b ls = 0"
  by (induction ls arbitrary: i b) simp_all

lemma header_scan_no_dumpvars: "\<forall>l\<in>set ls. \<not> has_dumpvars l \<Longrightarrow> header_scan i False ls = 0"
  by (induction ls arbitrary: i) simp_all

lemma header_scan_unterminated:
  "d < length ls \<Longrightarrow> \<forall>j<d. \<not> has_dumpvars (ls ! j) \<Longrightarrow>
   \<forall>e. d \<le> e \<and> e < length ls \<longrightarrow> \<not> has_end (ls ! e) \<Longrightarrow>
     header_scan i False ls = 0"
proof (induction ls arbitrary: i d)
  case Nil
  then show ?case by simp
next
  case (Cons line rest)
  show ?case
  proof (cases d)
    case 0
    then have "\<forall>l\<in>set (line # rest). \<not> has_end l"
      using Cons.prems(3) by (metis in_set_conv_nth le0)
    then show ?thesis by (rule header_scan_no_end)
  next
    case (Suc d')
    have "\<not> has_dumpvars line" using Cons.prems(2) Suc by auto
    moreover have "\<forall>j<d'. \<not> has_dumpvars (rest ! j)" using Cons.prems(2) Suc by auto
    moreover have "\<forall>e. d' \<le> e \<and> e < length rest \<longrightarrow> \<not> has_end (rest ! e)"
      using Cons.prems(3) Suc by auto
    ultimately show ?thesis
      using Cons.IH [of d' "i + 1"] Cons.prems(1) Suc by simp
  qed
qed

section \<open>The read\<close>

lemma concat_keep_ends: "concat (keep_ends s) = s"
  by (induction s) (auto split: list.splits)

lemma universal_newlines_id: "CHR 0x0D \<notin> set s \<Longrightarrow> universal_newlines s = s"
  by (induction s) auto

lemma concat_readlines: "concat (readlines input_text) = universal_newlines input_text"
  by (simp add: readlines_def concat_keep_ends)

lemma header_body: "header_of lines @ body_of lines = lines"
  by (simp add: header_of_def body_of_def)

lemma split_vcd_eq:
  "split_vcd lines T =
     (concat (header_of lines) @ concat (fst (split_data T (body_of lines))),
      concat (header_of lines) @ concat (snd (split_data T (body_of lines))))"
  by (simp add: split_vcd_def split_data_def header_of_def body_of_def Let_def writelines_def)

lemma subseq_outputs:
  "subseq (header_of lines @ fst (split_data T (body_of lines))) lines \<and>
   subseq (header_of lines @ snd (split_data T (body_of lines))) lines"
proof -
  have "subseq (header_of lines @ before_from T 0 (body_of lines)) (header_of lines @ body_of lines)"
    by (intro list_emb_append_mono subseq_before_from) simp
  moreover have "subseq (header_of lines @ after_from T 0 (body_of lines)) (header_of lines @ body_of lines)"
    by (intro list_emb_append_mono subseq_after_from) simp
  ultimately show ?thesis by (simp add: split_data_eq header_body)
qed

section \<open>Properties\<close>

text \<open>
  C1. When the timestamp values of the body are non-decreasing, the before partition
  followed by the after partition is the body itself: no line is dropped, duplicated
  or moved. The time starts at 0, so the statement is for a split time that is not
  negative, as the interface has it, or for timestamps that are all above the split
  time, as the times of a VCD, none negative, are above a negative split time.
\<close>

theorem split_concat_is_body:
  assumes "sorted (timestamps body)"
    and "0 \<le> T \<or> (\<forall>t\<in>set (timestamps body). T < t)"
  shows "fst (split_data T body) @ snd (split_data T body) = body"
proof (cases "0 \<le> T")
  case True
  then show ?thesis
    using sorted_split_from [OF assms(1), of 0 T] by (simp add: split_data_eq)
next
  case False
  then have "\<forall>t\<in>set (timestamps body). T < t"
    using assms(2) by simp
  with all_after [of T 0 body] False show ?thesis
    by (simp add: split_data_eq)
qed

theorem split_concat_is_body_witness:
  "sorted (timestamps boundary_body) \<and> (0::int) \<le> 100 \<and>
   fst (split_data 100 boundary_body) @ snd (split_data 100 boundary_body) = boundary_body \<and>
   fst (split_data (- 1) boundary_body) @ snd (split_data (- 1) boundary_body) = boundary_body"
proof -
  have s: "sorted (timestamps boundary_body)"
    by (simp add: timestamps_boundary_body)
  have t: "(0::int) \<le> 100 \<or> (\<forall>t\<in>set (timestamps boundary_body). 100 < t)"
    by simp
  have u: "(0::int) \<le> - 1 \<or> (\<forall>t\<in>set (timestamps boundary_body). - 1 < t)"
    by (simp add: timestamps_boundary_body)
  show ?thesis
    using split_concat_is_body [OF s t] split_concat_is_body [OF s u] s by simp
qed

text \<open>
  C2. A timestamp line of value \<open>t\<close> goes to the before partition when \<open>t \<le> T\<close> and to
  the after partition otherwise, wherever it stands in the body: it is appended to
  what the lines before it have put there, and the lines after it are routed as by
  the loop started at time \<open>t\<close>. The step of the loop sets the time to \<open>t\<close>.
  For the body \<^verbatim>\<open>#100\n1!\n#200\n1!\n\<close>, split time 100 gives \<^verbatim>\<open>#100\n1!\n\<close> and
  \<^verbatim>\<open>#200\n1!\n\<close>, and split time 99 gives an empty before partition and the whole
  body after.
\<close>

theorem timestamp_line_routed_by_value:
  assumes "startswith_hash line" and "py_int (py_strip (drop 1 line)) = Inr t"
  shows "split_data T (pre @ line # rest) =
            (if t \<le> T
             then (fst (split_data T pre) @ line #
                     data1 (route_loop T (init_router\<lparr>current_time := t\<rparr>) rest),
                   snd (split_data T pre) @
                     data2 (route_loop T (init_router\<lparr>current_time := t\<rparr>) rest))
             else (fst (split_data T pre) @
                     data1 (route_loop T (init_router\<lparr>current_time := t\<rparr>) rest),
                   snd (split_data T pre) @ line #
                     data2 (route_loop T (init_router\<lparr>current_time := t\<rparr>) rest))) \<and>
         route_loop T init_router (pre @ [line]) =
            (if t \<le> T
             then (route_loop T init_router pre)
                    \<lparr>current_time := t, data1 := data1 (route_loop T init_router pre) @ [line]\<rparr>
             else (route_loop T init_router pre)
                    \<lparr>current_time := t, split_occurred := True,
                     data2 := data2 (route_loop T init_router pre) @ [line]\<rparr>) \<and>
         split_data 100 boundary_body =
           ([''#100'' @ [CHR 0x0A], ''1!'' @ [CHR 0x0A]], [''#200'' @ [CHR 0x0A], ''1!'' @ [CHR 0x0A]]) \<and>
         split_data 99 boundary_body = ([], boundary_body)"
proof -
  have u: "update_time line ct = t" for ct
    using assms by (simp add: update_time_def)
  have 1: "split_data T (pre @ line # rest) =
            (if t \<le> T
             then (fst (split_data T pre) @ line #
                     data1 (route_loop T (init_router\<lparr>current_time := t\<rparr>) rest),
                   snd (split_data T pre) @
                     data2 (route_loop T (init_router\<lparr>current_time := t\<rparr>) rest))
             else (fst (split_data T pre) @
                     data1 (route_loop T (init_router\<lparr>current_time := t\<rparr>) rest),
                   snd (split_data T pre) @ line #
                     data2 (route_loop T (init_router\<lparr>current_time := t\<rparr>) rest)))"
    by (simp add: split_data_append u restart_data1 restart_data2)
  have 2: "route_loop T init_router (pre @ [line]) =
            (if t \<le> T
             then (route_loop T init_router pre)
                    \<lparr>current_time := t, data1 := data1 (route_loop T init_router pre) @ [line]\<rparr>
             else (route_loop T init_router pre)
                    \<lparr>current_time := t, split_occurred := True,
                     data2 := data2 (route_loop T init_router pre) @ [line]\<rparr>)"
    by (simp add: route_loop_snoc route_line_def Let_def u)
  show ?thesis
    using 1 2 split_data_boundary_100 split_data_boundary_99 by simp
qed

theorem timestamp_line_routed_by_value_witness:
  "startswith_hash (''#100'' @ [CHR 0x0A]) \<and>
   py_int (py_strip (drop 1 (''#100'' @ [CHR 0x0A]))) = Inr 100 \<and>
   route_loop 100 init_router [''#100'' @ [CHR 0x0A]] =
     init_router\<lparr>current_time := 100, data1 := [''#100'' @ [CHR 0x0A]]\<rparr> \<and>
   route_loop 99 init_router [''#100'' @ [CHR 0x0A]] =
     init_router\<lparr>current_time := 100, split_occurred := True, data2 := [''#100'' @ [CHR 0x0A]]\<rparr>"
proof -
  have 1: "startswith_hash (''#100'' @ [CHR 0x0A])" by code_simp
  have 2: "py_int (py_strip (drop 1 (''#100'' @ [CHR 0x0A]))) = Inr 100" by code_simp
  show ?thesis
    using timestamp_line_routed_by_value [OF 1 2, of 100 "[]" "[]"]
      timestamp_line_routed_by_value [OF 1 2, of 99 "[]" "[]"] 1 2
    by (simp add: init_router_def)
qed

text \<open>
  C3. Lines that are not timestamp lines go where the last timestamp line before
  them went: a timestamp line and the run of such lines after it stay together, in
  order, in one partition, so no group is divided between the two. Lines starting
  with \<^verbatim>\<open>#\<close> that \<^verbatim>\<open>int\<close> rejects count as lines that are not timestamp lines.
\<close>

theorem group_follows_timestamp:
  assumes "startswith_hash ts" and "py_int (py_strip (drop 1 ts)) = Inr t"
    and "\<forall>l\<in>set grp. timestamp_of l = None"
  shows "split_data T (pre @ ts # grp @ rest) =
            (if t \<le> T
             then (fst (split_data T pre) @ ts # grp @
                     data1 (route_loop T (init_router\<lparr>current_time := t\<rparr>) rest),
                   snd (split_data T pre) @
                     data2 (route_loop T (init_router\<lparr>current_time := t\<rparr>) rest))
             else (fst (split_data T pre) @
                     data1 (route_loop T (init_router\<lparr>current_time := t\<rparr>) rest),
                   snd (split_data T pre) @ ts # grp @
                     data2 (route_loop T (init_router\<lparr>current_time := t\<rparr>) rest)))"
proof -
  have u: "update_time ts ct = t" for ct
    using assms(1,2) by (simp add: update_time_def)
  show ?thesis
    using assms(3)
    by (simp add: split_data_append u before_from_append after_from_append
        no_timestamp_before no_timestamp_after no_timestamp_time restart_data1 restart_data2)
qed

theorem group_follows_timestamp_witness:
  "split_data 100 [''#100'' @ [CHR 0x0A], ''1!'' @ [CHR 0x0A]] =
     ([''#100'' @ [CHR 0x0A], ''1!'' @ [CHR 0x0A]], []) \<and>
   split_data 99 [''#100'' @ [CHR 0x0A], ''1!'' @ [CHR 0x0A]] =
     ([], [''#100'' @ [CHR 0x0A], ''1!'' @ [CHR 0x0A]])"
proof -
  have 1: "startswith_hash (''#100'' @ [CHR 0x0A])" by code_simp
  have 2: "py_int (py_strip (drop 1 (''#100'' @ [CHR 0x0A]))) = Inr 100" by code_simp
  have "timestamp_of (''1!'' @ [CHR 0x0A]) = None" by code_simp
  then have 3: "\<forall>l\<in>set [''1!'' @ [CHR 0x0A]]. timestamp_of l = None" by simp
  have e: "split_data T [] = ([], [])" for T by (simp add: split_data_def init_router_def)
  show ?thesis
    using group_follows_timestamp [OF 1 2 3, of 100 "[]" "[]"]
      group_follows_timestamp [OF 1 2 3, of 99 "[]" "[]"]
    by (simp add: e init_router_def)
qed

text \<open>
  C4, as amended. Output 1 is the header followed by the before partition and output 2
  the same header followed by the after partition, each the plain concatenation of
  its lines, which are lines of the input as read, in their order. The header and the
  body make up the lines read, whose text is that of the input file with every
  \<^verbatim>\<open>\r\n\<close> and \<^verbatim>\<open>\r\<close> turned into \<^verbatim>\<open>\n\<close>. Both outputs and that text start with the same
  header text, and so does the input file itself when it holds no \<^verbatim>\<open>\r\<close>.
\<close>

theorem outputs_are_header_plus_partition:
  "split_vcd_file input_text T =
     (concat (header_of (readlines input_text)) @
        concat (fst (split_data T (body_of (readlines input_text)))),
      concat (header_of (readlines input_text)) @
        concat (snd (split_data T (body_of (readlines input_text))))) \<and>
   header_of (readlines input_text) @ body_of (readlines input_text) = readlines input_text \<and>
   concat (readlines input_text) = universal_newlines input_text \<and>
   subseq (header_of (readlines input_text) @ fst (split_data T (body_of (readlines input_text))))
     (readlines input_text) \<and>
   subseq (header_of (readlines input_text) @ snd (split_data T (body_of (readlines input_text))))
     (readlines input_text) \<and>
   prefix (concat (header_of (readlines input_text))) (fst (split_vcd_file input_text T)) \<and>
   prefix (concat (header_of (readlines input_text))) (snd (split_vcd_file input_text T)) \<and>
   prefix (concat (header_of (readlines input_text))) (universal_newlines input_text) \<and>
   (CHR 0x0D \<notin> set input_text \<longrightarrow> prefix (concat (header_of (readlines input_text))) input_text)"
proof -
  let ?ls = "readlines input_text"
  have 1: "split_vcd_file input_text T =
     (concat (header_of ?ls) @ concat (fst (split_data T (body_of ?ls))),
      concat (header_of ?ls) @ concat (snd (split_data T (body_of ?ls))))"
    by (simp add: split_vcd_file_def split_vcd_eq Let_def)
  have "concat ?ls = concat (header_of ?ls) @ concat (body_of ?ls)"
    using header_body [of ?ls] by (metis concat_append)
  then have 2: "prefix (concat (header_of ?ls)) (universal_newlines input_text)"
    by (simp add: concat_readlines [symmetric])
  have 3: "CHR 0x0D \<notin> set input_text \<longrightarrow> prefix (concat (header_of ?ls)) input_text"
  proof
    assume "CHR 0x0D \<notin> set input_text"
    then have "universal_newlines input_text = input_text"
      by (rule universal_newlines_id)
    with 2 show "prefix (concat (header_of ?ls)) input_text"
      by simp
  qed
  show ?thesis
    using 1 2 3 subseq_outputs [of ?ls T]
    by (simp add: header_body concat_readlines)
qed

theorem outputs_are_header_plus_partition_witness:
  "CHR 0x0D \<notin> set lf_file \<and>
   split_vcd_file lf_file 5 = (lf_file, ''$dumpvars'' @ [CHR 0x0A] @ ''0!'' @ [CHR 0x0A] @ ''$end'' @ [CHR 0x0A]) \<and>
   prefix (''$dumpvars'' @ [CHR 0x0A] @ ''0!'' @ [CHR 0x0A] @ ''$end'' @ [CHR 0x0A]) lf_file"
proof -
  have c: "CHR 0x0D \<notin> set lf_file"
    by code_simp
  have h: "concat (header_of (readlines lf_file)) =
             ''$dumpvars'' @ [CHR 0x0A] @ ''0!'' @ [CHR 0x0A] @ ''$end'' @ [CHR 0x0A]"
    by code_simp
  have b1: "concat (fst (split_data 5 (body_of (readlines lf_file)))) =
             ''#5'' @ [CHR 0x0A] @ ''1!'' @ [CHR 0x0A]"
    by code_simp
  have b2: "concat (snd (split_data 5 (body_of (readlines lf_file)))) = []"
    by code_simp
  have "split_vcd_file lf_file 5 =
          (concat (header_of (readlines lf_file)) @
             concat (fst (split_data 5 (body_of (readlines lf_file)))),
           concat (header_of (readlines lf_file)) @
             concat (snd (split_data 5 (body_of (readlines lf_file)))))"
    and "CHR 0x0D \<notin> set lf_file \<longrightarrow> prefix (concat (header_of (readlines lf_file))) lf_file"
    using outputs_are_header_plus_partition [of lf_file 5] by blast+
  then show ?thesis
    unfolding h b1 b2 using c by (simp add: lf_file_def)
qed

text \<open>
  C4 as stated has the lines and the header of the outputs identical to those of the
  source. A file with \<^verbatim>\<open>\r\n\<close> line ends and the split time 5 has all its lines in the
  before partition, so output 1 would be the file; it is the file with \<^verbatim>\<open>\n\<close> line
  ends, and the header of either output is not the start of the file.
\<close>

theorem outputs_not_verbatim_counterexample:
  "split_vcd_file crlf_file 5 =
     (lf_file, ''$dumpvars'' @ [CHR 0x0A] @ ''0!'' @ [CHR 0x0A] @ ''$end'' @ [CHR 0x0A]) \<and>
   concat (header_of (readlines crlf_file)) =
     ''$dumpvars'' @ [CHR 0x0A] @ ''0!'' @ [CHR 0x0A] @ ''$end'' @ [CHR 0x0A] \<and>
   \<not> prefix (concat (header_of (readlines crlf_file))) crlf_file \<and>
   fst (split_vcd_file crlf_file 5) \<noteq> crlf_file"
  by code_simp

text \<open>
  C5, as amended. Let \<open>d\<close> be the first line with a dumpvars marker and \<open>e\<close> the first
  line at or after \<open>d\<close> with an end marker, the line \<open>d\<close> itself included. Then the
  boundary is \<open>e + 1\<close>.
\<close>

theorem header_end_first_close:
  assumes "d \<le> e" and "e < length lines"
    and "has_dumpvars (lines ! d)" and "\<forall>j<d. \<not> has_dumpvars (lines ! j)"
    and "has_end (lines ! e)" and "\<forall>j. d \<le> j \<and> j < e \<longrightarrow> \<not> has_end (lines ! j)"
  shows "find_header_end lines = e + 1"
  using header_scan_closed [OF assms, of 0] by (simp add: find_header_end_def)

theorem header_end_first_close_witness:
  "find_header_end multiline_dumpvars_file = 3 + 1"
proof -
  have 1: "(1::nat) \<le> 3" by simp
  have 2: "3 < length multiline_dumpvars_file" by (simp add: multiline_dumpvars_file_def)
  have 3: "has_dumpvars (multiline_dumpvars_file ! 1)" by code_simp
  have "\<not> has_dumpvars (multiline_dumpvars_file ! 0)" by code_simp
  then have 4: "\<forall>j<1. \<not> has_dumpvars (multiline_dumpvars_file ! j)" by simp
  have 5: "has_end (multiline_dumpvars_file ! 3)" by code_simp
  have e: "\<not> has_end (multiline_dumpvars_file ! 1)" "\<not> has_end (multiline_dumpvars_file ! 2)"
    by code_simp+
  have 6: "\<forall>j. 1 \<le> j \<and> j < 3 \<longrightarrow> \<not> has_end (multiline_dumpvars_file ! j)"
  proof (intro allI impI)
    fix j :: nat
    assume "1 \<le> j \<and> j < 3"
    then have "j = 1 \<or> j = 2" by arith
    then show "\<not> has_end (multiline_dumpvars_file ! j)" using e by auto
  qed
  show ?thesis using header_end_first_close [OF 1 2 3 4 5 6] .
qed

text \<open>
  C5 as stated takes the first end-marker line that comes after a dumpvars-marker
  line. A file whose dumpvars section opens and closes on one line, with a later
  \<^verbatim>\<open>$end\<close> in the body, has such a later line at index 4, so the stated boundary is 5;
  the scan stops on the dumpvars line itself and returns 3.
\<close>

theorem header_end_strictly_later_counterexample:
  "claimed_header_end oneline_dumpvars_file = Some 5 \<and>
   find_header_end oneline_dumpvars_file = 3 \<and>
   claimed_header_end oneline_dumpvars_file \<noteq> Some (find_header_end oneline_dumpvars_file)"
  by code_simp

text \<open>
  C6. When no line has a dumpvars marker, or the first line that has one is followed
  by no end marker (on that line or later), the boundary is 0: the header is empty,
  the body is the whole file, and the outputs are the two partitions of all lines,
  with no header in front. The function returns its outputs as for any other input.
\<close>

theorem missing_header_defaults:
  assumes "(\<forall>l\<in>set lines. \<not> has_dumpvars l) \<or>
           (\<exists>d<length lines. has_dumpvars (lines ! d) \<and> (\<forall>j<d. \<not> has_dumpvars (lines ! j)) \<and>
               (\<forall>e. d \<le> e \<and> e < length lines \<longrightarrow> \<not> has_end (lines ! e)))"
  shows "find_header_end lines = 0 \<and> header_of lines = [] \<and> body_of lines = lines \<and>
         split_vcd lines T = (concat (fst (split_data T lines)), concat (snd (split_data T lines)))"
proof -
  have 0: "find_header_end lines = 0"
    using assms header_scan_no_dumpvars [of lines 0] header_scan_unterminated [of _ lines 0]
    by (auto simp: find_header_end_def)
  then show ?thesis
    by (simp add: header_of_def body_of_def split_vcd_def split_data_def Let_def writelines_def)
qed

theorem missing_header_defaults_witness:
  "find_header_end unterminated_file = 0 \<and> header_of unterminated_file = [] \<and>
   body_of unterminated_file = unterminated_file \<and>
   find_header_end [''#5'' @ [CHR 0x0A], ''1!'' @ [CHR 0x0A]] = 0"
proof -
  have dv: "has_dumpvars (unterminated_file ! 0)" by code_simp
  have "\<forall>l\<in>set unterminated_file. \<not> has_end l" by code_simp
  then have ne: "\<forall>e. 0 \<le> e \<and> e < length unterminated_file \<longrightarrow> \<not> has_end (unterminated_file ! e)"
    by simp
  have len: "0 < length unterminated_file" by (simp add: unterminated_file_def)
  have h1: "(\<forall>l\<in>set unterminated_file. \<not> has_dumpvars l) \<or>
           (\<exists>d<length unterminated_file. has_dumpvars (unterminated_file ! d) \<and>
               (\<forall>j<d. \<not> has_dumpvars (unterminated_file ! j)) \<and>
               (\<forall>e. d \<le> e \<and> e < length unterminated_file \<longrightarrow> \<not> has_end (unterminated_file ! e)))"
    using dv ne len by blast
  have "\<forall>l\<in>set [''#5'' @ [CHR 0x0A], ''1!'' @ [CHR 0x0A]]. \<not> has_dumpvars l" by code_simp
  then have h2: "(\<forall>l\<in>set [''#5'' @ [CHR 0x0A], ''1!'' @ [CHR 0x0A]]. \<not> has_dumpvars l) \<or>
           (\<exists>d<length [''#5'' @ [CHR 0x0A], ''1!'' @ [CHR 0x0A]].
               has_dumpvars ([''#5'' @ [CHR 0x0A], ''1!'' @ [CHR 0x0A]] ! d) \<and>
               (\<forall>j<d. \<not> has_dumpvars ([''#5'' @ [CHR 0x0A], ''1!'' @ [CHR 0x0A]] ! j)) \<and>
               (\<forall>e. d \<le> e \<and> e < length [''#5'' @ [CHR 0x0A], ''1!'' @ [CHR 0x0A]] \<longrightarrow>
                    \<not> has_end ([''#5'' @ [CHR 0x0A], ''1!'' @ [CHR 0x0A]] ! e)))"
    by (rule disjI1)
  show ?thesis
    using missing_header_defaults [OF h1] missing_header_defaults [OF h2] by simp
qed

text \<open>
  C7. A line that starts with \<^verbatim>\<open>#\<close> and whose rest \<^verbatim>\<open>int\<close> rejects raises nothing out
  of the loop: the step leaves the time as it was and appends the line to \<open>data1\<close> when
  that time is at most the split time, and to \<open>data2\<close> otherwise, so the line is
  in the output at its place and the lines after it are routed from the unchanged
  time. \<^verbatim>\<open>#abc\<close> is such a line.
\<close>

theorem malformed_timestamp_tolerated:
  assumes "startswith_hash line" and "py_int (py_strip (drop 1 line)) = Inl ValueError"
  shows "current_time (route_line T line st) = current_time st \<and>
         route_loop T init_router (pre @ [line]) =
           (if current_time (route_loop T init_router pre) \<le> T
            then (route_loop T init_router pre)
                   \<lparr>data1 := data1 (route_loop T init_router pre) @ [line]\<rparr>
            else (route_loop T init_router pre)
                   \<lparr>split_occurred := True,
                    data2 := data2 (route_loop T init_router pre) @ [line]\<rparr>) \<and>
         split_data T (pre @ line # rest) =
            (let st = route_loop T init_router pre;
                 st' = route_loop T (init_router\<lparr>current_time := current_time st\<rparr>) rest
             in if current_time st \<le> T
                then (data1 st @ line # data1 st', data2 st @ data2 st')
                else (data1 st @ data1 st', data2 st @ line # data2 st'))"
proof -
  have u: "update_time line ct = ct" for ct
    using assms by (simp add: update_time_def)
  have 1: "current_time (route_line T line st) = current_time st"
    by (simp add: route_line_def Let_def u)
  have 2: "route_loop T init_router (pre @ [line]) =
           (if current_time (route_loop T init_router pre) \<le> T
            then (route_loop T init_router pre)
                   \<lparr>data1 := data1 (route_loop T init_router pre) @ [line]\<rparr>
            else (route_loop T init_router pre)
                   \<lparr>split_occurred := True,
                    data2 := data2 (route_loop T init_router pre) @ [line]\<rparr>)"
    by (simp add: route_loop_snoc route_line_def Let_def u)
  have 3: "split_data T (pre @ line # rest) =
            (let st = route_loop T init_router pre;
                 st' = route_loop T (init_router\<lparr>current_time := current_time st\<rparr>) rest
             in if current_time st \<le> T
                then (data1 st @ line # data1 st', data2 st @ data2 st')
                else (data1 st @ data1 st', data2 st @ line # data2 st'))"
    by (simp add: Let_def split_data_append u current_time_route_loop restart_data1 restart_data2
        data1_route_loop data2_route_loop)
       (simp add: split_data_eq init_router_def)
  show ?thesis using 1 2 3 by simp
qed

theorem malformed_timestamp_tolerated_witness:
  "startswith_hash malformed_line \<and>
   py_int (py_strip (drop 1 malformed_line)) = Inl ValueError \<and>
   route_loop 0 init_router [malformed_line] = init_router\<lparr>data1 := [malformed_line]\<rparr> \<and>
   route_loop (- 1) init_router [malformed_line] =
     init_router\<lparr>split_occurred := True, data2 := [malformed_line]\<rparr>"
proof -
  have 1: "startswith_hash malformed_line" by code_simp
  have 2: "py_int (py_strip (drop 1 malformed_line)) = Inl ValueError" by code_simp
  show ?thesis
    using malformed_timestamp_tolerated [OF 1 2, of 0 init_router "[]" "[]"]
      malformed_timestamp_tolerated [OF 1 2, of "- 1" init_router "[]" "[]"] 1 2
    by (simp add: init_router_def)
qed

text \<open>
  C8. The time starts at 0, so with a split time that is not negative every line
  before the first timestamp line goes to the before partition, and the lines after
  them are split as if they were the whole body.
\<close>

theorem pre_timestamp_lines_before:
  assumes "0 \<le> T" and "\<forall>l\<in>set pre. timestamp_of l = None"
  shows "route_loop T init_router pre = init_router\<lparr>data1 := pre\<rparr> \<and>
         split_data T (pre @ rest) = (pre @ fst (split_data T rest), snd (split_data T rest))"
proof -
  have "route_loop T st pre = st\<lparr>data1 := data1 st @ pre\<rparr>" if "current_time st \<le> T" for st
    using that assms(2)
    by (induction pre arbitrary: st) (simp_all add: route_line_def Let_def update_time_timestamp)
  from this [of init_router] assms(1)
  have 1: "route_loop T init_router pre = init_router\<lparr>data1 := pre\<rparr>"
    by (simp add: init_router_def)
  have 2: "split_data T (pre @ rest) = (pre @ fst (split_data T rest), snd (split_data T rest))"
    using assms
    by (simp add: split_data_append no_timestamp_time)
       (simp add: split_data_eq no_timestamp_before no_timestamp_after)
  show ?thesis using 1 2 by simp
qed

theorem pre_timestamp_lines_before_witness:
  "(0::int) \<le> 0 \<and>
   split_data 0 ([''1!'' @ [CHR 0x0A], malformed_line] @ boundary_body) =
     ([''1!'' @ [CHR 0x0A], malformed_line], boundary_body)"
proof -
  have 1: "(0::int) \<le> 0" by simp
  have "timestamp_of (''1!'' @ [CHR 0x0A]) = None" "timestamp_of malformed_line = None"
    by code_simp+
  then have 2: "\<forall>l\<in>set [''1!'' @ [CHR 0x0A], malformed_line]. timestamp_of l = None" by simp
  have s: "split_data 0 boundary_body = ([], boundary_body)" by code_simp
  show ?thesis
    using pre_timestamp_lines_before [OF 1 2, of boundary_body] by (simp add: s)
qed

text \<open>
  C9. For a body with non-decreasing timestamps, splitting at \<open>T1\<close> and then splitting
  the after partition at \<open>T2 \<ge> T1\<close> gives the split of the body at \<open>T2\<close>: its before
  partition is the first before partition followed by the middle part, and its after
  partition is the tail. This holds for every \<open>T2 \<ge> T1\<close>, whether or not it reaches
  the first timestamp of the after partition. The time starts at 0, so the statement
  is for a \<open>T1\<close> that is not negative, as the interface has it, or for timestamps that
  are all above \<open>T1\<close>.
\<close>

theorem resplit_composes:
  assumes "sorted (timestamps body)"
    and "0 \<le> T1 \<or> (\<forall>t\<in>set (timestamps body). T1 < t)"
    and "T1 \<le> T2"
  shows "split_data T2 body =
           (fst (split_data T1 body) @ fst (split_data T2 (snd (split_data T1 body))),
            snd (split_data T2 (snd (split_data T1 body))))"
proof (cases "0 \<le> T1")
  case True
  then show ?thesis
    using resplit_from [OF assms(1) True assms(3), of 0] by (simp add: split_data_eq)
next
  case False
  then have "\<forall>t\<in>set (timestamps body). T1 < t"
    using assms(2) by simp
  with all_after [of T1 0 body] False show ?thesis
    by (simp add: split_data_eq)
qed

theorem resplit_composes_witness:
  "sorted (timestamps boundary_body) \<and> (100::int) \<le> 200 \<and>
   split_data 200 boundary_body =
     (fst (split_data 100 boundary_body) @ fst (split_data 200 (snd (split_data 100 boundary_body))),
      snd (split_data 200 (snd (split_data 100 boundary_body))))"
proof -
  have s: "sorted (timestamps boundary_body)"
    by (simp add: timestamps_boundary_body)
  have t: "(0::int) \<le> 100 \<or> (\<forall>t\<in>set (timestamps boundary_body). 100 < t)" by simp
  have u: "(100::int) \<le> 200" by simp
  show ?thesis
    using resplit_composes [OF s t u] s by simp
qed

text \<open>
  C10. For any body and any split time, negative ones and bodies with decreasing or
  malformed timestamps included, the body is an interleaving of the two partitions:
  every line is in exactly one of them, and each keeps the order of its lines. Each
  single step of the loop appends the line to exactly one of the two lists.
\<close>

theorem partitions_interleave_body:
  "body \<in> shuffles (fst (split_data T body)) (snd (split_data T body)) \<and>
   mset (fst (split_data T body)) + mset (snd (split_data T body)) = mset body \<and>
   subseq (fst (split_data T body)) body \<and> subseq (snd (split_data T body)) body \<and>
   ((data1 (route_line T line st) = data1 st @ [line] \<and> data2 (route_line T line st) = data2 st) \<or>
    (data1 (route_line T line st) = data1 st \<and> data2 (route_line T line st) = data2 st @ [line]))"
  using shuffles_from [of body T 0] subseq_before_from [of T 0 body]
    subseq_after_from [of T 0 body] mset_from [of T 0 body]
  by (simp add: split_data_eq route_line_def Let_def)

theorem partitions_interleave_body_witness:
  "backwards_body \<in> shuffles [''#100'' @ [CHR 0x0A], ''0!'' @ [CHR 0x0A]]
                              [''#200'' @ [CHR 0x0A], ''1!'' @ [CHR 0x0A]]"
proof -
  have "split_data 100 backwards_body =
          ([''#100'' @ [CHR 0x0A], ''0!'' @ [CHR 0x0A]], [''#200'' @ [CHR 0x0A], ''1!'' @ [CHR 0x0A]])"
    by code_simp
  then show ?thesis
    using partitions_interleave_body [of backwards_body 100] by simp
qed

end
